theory Spec2Isabelle
  imports Main "HOL-Library.Multiset" "HOL-Library.Char_ord" "HOL-Library.List_Lexorder"
begin

section \<open>Conflict detector (playlistController.ts, getConflicts)\<close>

text \<open>
  A row of the selections table, and the row the query of \<^verbatim>\<open>getConflicts\<close> returns: the
  selection joined with its act, stage and user. Times are the "HH:MM" strings stored in
  the table; \<^verbatim>\<open>a.start_time < b.end_time\<close> is JavaScript's comparison of two strings, which
  is the lexicographic order on their code units, here the order on \<^typ>\<open>string\<close>.
\<close>

record SelectionRow =
  row_id :: int
  user_id :: int
  group_id :: int
  act_id :: int
  priority :: int
  created_at :: string

record ConflictRow = SelectionRow +
  day_id :: int
  start_time :: string
  end_time :: string
  stage_id :: int
  act_name :: string
  stage_name :: string
  display_name :: string

record act_ref =
  actId :: int
  actName :: string
  stageId :: int
  stageName :: string
  startTime :: string
  endTime :: string

record conflict =
  userId :: int
  userName :: string
  dayId :: int
  acts :: "act_ref \<times> act_ref"

text \<open>
  A JavaScript \<^verbatim>\<open>Map<number, any[]>\<close> filled by \<^verbatim>\<open>has\<close>/\<^verbatim>\<open>set\<close>/\<^verbatim>\<open>get(..).push\<close>: an
  association list in insertion order of the keys, which is the order \<^verbatim>\<open>for (const [k, v] of m)\<close>
  visits them in.
\<close>

fun map_push :: "'k \<Rightarrow> 'v \<Rightarrow> ('k \<times> 'v list) list \<Rightarrow> ('k \<times> 'v list) list" where
  "map_push k v [] = [(k, [v])]"
| "map_push k v ((k', vs) # m) =
     (if k = k' then (k', vs @ [v]) # m else (k', vs) # map_push k v m)"

definition group_rows :: "('a \<Rightarrow> 'k) \<Rightarrow> 'a list \<Rightarrow> ('k \<times> 'a list) list" where
  "group_rows key rows = foldl (\<lambda>m sel. map_push (key sel) sel m) [] rows"

definition userSelections :: "ConflictRow list \<Rightarrow> (int \<times> ConflictRow list) list" where
  "userSelections selections = group_rows user_id selections"

definition byDay :: "ConflictRow list \<Rightarrow> (int \<times> ConflictRow list) list" where
  "byDay sels = group_rows day_id sels"

definition time_overlap :: "ConflictRow \<Rightarrow> ConflictRow \<Rightarrow> bool" where
  "time_overlap a b \<longleftrightarrow> start_time a < end_time b \<and> start_time b < end_time a"

definition act_of :: "ConflictRow \<Rightarrow> act_ref" where
  "act_of a = \<lparr>actId = act_id a, actName = act_name a, stageId = stage_id a,
     stageName = stage_name a, startTime = start_time a, endTime = end_time a\<rparr>"

definition push_conflict :: "int \<Rightarrow> int \<Rightarrow> ConflictRow \<Rightarrow> ConflictRow \<Rightarrow> conflict" where
  "push_conflict uid d a b =
     \<lparr>userId = uid, userName = display_name a, dayId = d, acts = (act_of a, act_of b)\<rparr>"

text \<open>The two nested index loops over one day's selections, \<open>j\<close> starting at \<open>i + 1\<close>.\<close>

definition day_conflicts :: "int \<Rightarrow> int \<Rightarrow> ConflictRow list \<Rightarrow> conflict list" where
  "day_conflicts uid d daySels =
     [push_conflict uid d (daySels ! i) (daySels ! j).
        i \<leftarrow> [0..<length daySels], j \<leftarrow> [i + 1..<length daySels],
        time_overlap (daySels ! i) (daySels ! j)]"

definition getConflicts :: "ConflictRow list \<Rightarrow> conflict list" where
  "getConflicts selections =
     concat (map (\<lambda>(uid, sels).
       concat (map (\<lambda>(d, daySels). day_conflicts uid d daySels) (byDay sels)))
       (userSelections selections))"

text \<open>
  The reading of the specification, written without the code's functions: every pair of
  positions \<open>i < j\<close> of the input; the Conflict record of a pair of rows, which names the
  user and the day of the rows and lists the first row's act before the second's, each
  with its id, name, stage and times; and the pairs that are conflicts.
\<close>

definition row_pairs :: "'a list \<Rightarrow> ('a \<times> 'a) list" where
  "row_pairs xs = [(xs ! i, xs ! j). i \<leftarrow> [0..<length xs], j \<leftarrow> [i + 1..<length xs]]"

definition conflict_of :: "ConflictRow \<times> ConflictRow \<Rightarrow> conflict" where
  "conflict_of p =
     \<lparr>userId = user_id (fst p), userName = display_name (fst p), dayId = day_id (fst p),
      acts =
        (\<lparr>actId = act_id (fst p), actName = act_name (fst p), stageId = stage_id (fst p),
          stageName = stage_name (fst p), startTime = start_time (fst p),
          endTime = end_time (fst p)\<rparr>,
         \<lparr>actId = act_id (snd p), actName = act_name (snd p), stageId = stage_id (snd p),
          stageName = stage_name (snd p), startTime = start_time (snd p),
          endTime = end_time (snd p)\<rparr>)\<rparr>"

definition is_conflict :: "ConflictRow \<times> ConflictRow \<Rightarrow> bool" where
  "is_conflict p \<longleftrightarrow>
     user_id (fst p) = user_id (snd p) \<and> day_id (fst p) = day_id (snd p) \<and>
     start_time (fst p) < end_time (snd p) \<and> start_time (snd p) < end_time (fst p)"

definition sel :: "int \<Rightarrow> int \<Rightarrow> int \<Rightarrow> string \<Rightarrow> string \<Rightarrow> ConflictRow" where
  "sel u d a s e =
     \<lparr>row_id = a, user_id = u, group_id = 1, act_id = a, priority = 1, created_at = [],
      day_id = d, start_time = s, end_time = e, stage_id = 1, act_name = [],
      stage_name = [], display_name = []\<rparr>"

text \<open>The same pairs by recursion on the list, for the proofs.\<close>

fun pairs :: "'a list \<Rightarrow> ('a \<times> 'a) list" where
  "pairs [] = []"
| "pairs (x # xs) = map (Pair x) xs @ pairs xs"

section \<open>Room broadcast hub (websocket/wsServer.ts)\<close>

text \<open>
  The messages of the shared type \<^verbatim>\<open>WebSocketMessage\<close>, with their payload fields in the
  order of the declaration (of the \<^verbatim>\<open>User\<close> of \<^verbatim>\<open>MEMBER_JOINED\<close> only the id is kept).
  \<^verbatim>\<open>JSON.stringify\<close> of a message is identified with the message.
\<close>

datatype ws_message =
    SELECTION_ADDED int int int string int
  | SELECTION_REMOVED int int int
  | MEMBER_JOINED int int
  | MEMBER_LEFT int int
  | JOIN_GROUP int
  | LEAVE_GROUP int
  | PING
  | PONG

text \<open>
  The ready state of a server-side connection of the \<^verbatim>\<open>ws\<close> library; a socket handed to the
  \<^verbatim>\<open>connection\<close> handler is past \<^verbatim>\<open>CONNECTING\<close>.
\<close>

datatype ready_state = OPEN | CLOSING | CLOSED

text \<open>
  An \<^verbatim>\<open>AuthenticatedSocket\<close>. Sockets are objects compared by identity: the hub's state
  holds them in a store indexed by a reference (a natural number), and rooms hold
  references. A JavaScript \<^verbatim>\<open>Set\<close> is a list without repetition in insertion order, the order
  \<^verbatim>\<open>forEach\<close> visits it in.
\<close>

record socket =
  userId :: int
  groupRooms :: "int list"
  isAlive :: bool
  readyState :: ready_state

text \<open>
  The state the module works on: \<open>rooms\<close> is the module-level map \<^verbatim>\<open>groupRooms\<close> (the name
  \<open>groupRooms\<close> is the socket's field here), \<open>socks\<close> the store of socket objects, \<open>clients\<close>
  the set \<^verbatim>\<open>wss.clients\<close>, \<open>sent\<close> the calls of \<^verbatim>\<open>socket.send\<close> and \<open>closes\<close> the calls of
  \<^verbatim>\<open>socket.close\<close>, both in the order they were made. Lines written to the console are
  not part of the state.
\<close>

record hub =
  rooms :: "int \<rightharpoonup> nat list"
  socks :: "nat \<Rightarrow> socket"
  clients :: "nat list"
  sent :: "(nat \<times> ws_message) list"
  closes :: "(nat \<times> nat \<times> string) list"

definition set_add :: "'a \<Rightarrow> 'a list \<Rightarrow> 'a list" where
  "set_add x xs = (if x \<in> set xs then xs else xs @ [x])"

definition set_delete :: "'a \<Rightarrow> 'a list \<Rightarrow> 'a list" where
  "set_delete x xs = removeAll x xs"

definition update_socket :: "nat \<Rightarrow> (socket \<Rightarrow> socket) \<Rightarrow> hub \<Rightarrow> hub" where
  "update_socket ws f st = st\<lparr>socks := (socks st)(ws := f (socks st ws))\<rparr>"

text \<open>
  The calls into the \<^verbatim>\<open>ws\<close> library. \<^verbatim>\<open>send\<close> is recorded as called. \<^verbatim>\<open>close\<close> is recorded and
  starts the closing handshake of an open socket; \<^verbatim>\<open>terminate\<close> destroys the connection of
  a socket that is not closed yet, which leaves it \<^verbatim>\<open>CLOSING\<close> until its close event.
\<close>

definition ws_send :: "nat \<Rightarrow> ws_message \<Rightarrow> hub \<Rightarrow> hub" where
  "ws_send ws payload st = st\<lparr>sent := sent st @ [(ws, payload)]\<rparr>"

definition ws_close :: "nat \<Rightarrow> nat \<Rightarrow> string \<Rightarrow> hub \<Rightarrow> hub" where
  "ws_close ws code reason st =
     update_socket ws
       (\<lambda>s. s\<lparr>readyState := (if readyState s = OPEN then CLOSING else readyState s)\<rparr>)
       (st\<lparr>closes := closes st @ [(ws, code, reason)]\<rparr>)"

definition ws_terminate :: "nat \<Rightarrow> hub \<Rightarrow> hub" where
  "ws_terminate ws st =
     update_socket ws
       (\<lambda>s. s\<lparr>readyState := (if readyState s = CLOSED then CLOSED else CLOSING)\<rparr>) st"

definition joinGroupRoom :: "nat \<Rightarrow> int \<Rightarrow> hub \<Rightarrow> hub" where
  "joinGroupRoom socket groupId st =
     (let st1 = (if rooms st groupId = None
                 then st\<lparr>rooms := (rooms st)(groupId \<mapsto> [])\<rparr> else st);
          st2 = st1\<lparr>rooms := (rooms st1)(groupId \<mapsto> set_add socket (the (rooms st1 groupId)))\<rparr>
      in update_socket socket (\<lambda>s. s\<lparr>groupRooms := set_add groupId (groupRooms s)\<rparr>) st2)"

definition leaveGroupRoom :: "nat \<Rightarrow> int \<Rightarrow> hub \<Rightarrow> hub" where
  "leaveGroupRoom socket groupId st =
     (let st1 =
        (case rooms st groupId of
           None \<Rightarrow> st
         | Some room \<Rightarrow>
             (let room' = set_delete socket room in
              if length room' = 0 then st\<lparr>rooms := (rooms st)(groupId := None)\<rparr>
              else st\<lparr>rooms := (rooms st)(groupId \<mapsto> room')\<rparr>))
      in update_socket socket (\<lambda>s. s\<lparr>groupRooms := set_delete groupId (groupRooms s)\<rparr>) st1)"

text \<open>
  \<^verbatim>\<open>socket.groupRooms.forEach\<close>: each call deletes the entry being visited, which does not
  keep \<^verbatim>\<open>forEach\<close> from visiting the entries after it, so every room the socket had joined
  at the start is left once.
\<close>

definition handleDisconnect :: "nat \<Rightarrow> hub \<Rightarrow> hub" where
  "handleDisconnect socket st =
     foldl (\<lambda>st groupId. leaveGroupRoom socket groupId st) st (groupRooms (socks st socket))"

definition broadcastToGroup :: "int \<Rightarrow> ws_message \<Rightarrow> int option \<Rightarrow> hub \<Rightarrow> hub" where
  "broadcastToGroup groupId message excludeUserId st =
     (case rooms st groupId of
        None \<Rightarrow> st
      | Some room \<Rightarrow>
          foldl (\<lambda>st socket.
                  if Some (userId (socks st socket)) \<noteq> excludeUserId \<and>
                     readyState (socks st socket) = OPEN
                  then ws_send socket message st else st)
            st room)"

definition getGroupConnectionCount :: "int \<Rightarrow> hub \<Rightarrow> nat" where
  "getGroupConnectionCount groupId st =
     (case rooms st groupId of None \<Rightarrow> 0 | Some room \<Rightarrow> length room)"

definition handleMessage :: "nat \<Rightarrow> ws_message \<Rightarrow> hub \<Rightarrow> hub" where
  "handleMessage socket message st =
     (case message of
        JOIN_GROUP groupId \<Rightarrow> joinGroupRoom socket groupId st
      | LEAVE_GROUP groupId \<Rightarrow> leaveGroupRoom socket groupId st
      | PONG \<Rightarrow> update_socket socket (\<lambda>s. s\<lparr>isAlive := True\<rparr>) st
      | _ \<Rightarrow> st)"

text \<open>
  The \<^verbatim>\<open>connection\<close> handler up to the registration of the socket's handlers. \<open>token\<close> is
  the result of \<^verbatim>\<open>url.searchParams.get('token')\<close> (\<open>None\<close> for \<^verbatim>\<open>null\<close>); \<open>verifyToken\<close> is
  the verifier of the authentication middleware, \<open>None\<close> when it throws and the decoded
  \<^verbatim>\<open>userId\<close> otherwise.
\<close>

definition connection :: "(string \<Rightarrow> int option) \<Rightarrow> nat \<Rightarrow> string option \<Rightarrow> hub \<Rightarrow> hub" where
  "connection verifyToken socket token st =
     (if token = None \<or> token = Some []
      then ws_close socket 4001 ''No token provided'' st
      else (case verifyToken (the token) of
              None \<Rightarrow> ws_close socket 4001 ''Invalid token'' st
            | Some uid \<Rightarrow>
                update_socket socket (\<lambda>s. s\<lparr>userId := uid, groupRooms := [], isAlive := True\<rparr>) st))"

text \<open>
  A socket the connection handler refused: the handler called \<^verbatim>\<open>socket.close\<close> and returned
  before it set \<^verbatim>\<open>userId\<close>, \<^verbatim>\<open>groupRooms\<close> and \<^verbatim>\<open>isAlive\<close> and before it registered the
  socket's handlers. These are the only calls of \<^verbatim>\<open>socket.close\<close> in the module, so the
  refused sockets are those of \<open>closes\<close>. Such a socket stays in \<^verbatim>\<open>wss.clients\<close> until its
  close event; its session fields are \<^verbatim>\<open>undefined\<close>, and the store's values for them are
  not what the program reads.
\<close>

definition refused :: "hub \<Rightarrow> nat \<Rightarrow> bool" where
  "refused st ws \<longleftrightarrow> ws \<in> set (map fst (closes st))"

text \<open>
  One round of the heartbeat interval. The callback of \<^verbatim>\<open>wss.clients.forEach\<close> casts each
  client to \<^verbatim>\<open>AuthenticatedSocket\<close>. On a refused socket \<^verbatim>\<open>!socket.isAlive\<close> holds of the
  undefined field, \<^verbatim>\<open>handleDisconnect\<close> is called, and \<^verbatim>\<open>socket.groupRooms.forEach\<close> throws a
  \<^verbatim>\<open>TypeError\<close> on the undefined set (\<open>None\<close>), before anything is changed. Nothing
  catches the error: it leaves \<^verbatim>\<open>forEach\<close> and the timer's callback, so the clients after
  the socket are not visited in this round. A sweep is \<open>Completed\<close> or has thrown
  (\<open>Uncaught\<close>), with the state as the visits before left it.
\<close>

datatype sweep = Completed hub | Uncaught hub

definition heartbeat_socket :: "nat \<Rightarrow> hub \<Rightarrow> hub option" where
  "heartbeat_socket socket st =
     (if refused st socket then None
      else if \<not> isAlive (socks st socket)
      then Some (ws_terminate socket (handleDisconnect socket st))
      else Some (ws_send socket PING (update_socket socket (\<lambda>s. s\<lparr>isAlive := False\<rparr>) st)))"

fun forEach_client :: "nat list \<Rightarrow> hub \<Rightarrow> sweep" where
  "forEach_client [] st = Completed st"
| "forEach_client (ws # wss) st =
     (case heartbeat_socket ws st of
        None \<Rightarrow> Uncaught st
      | Some st' \<Rightarrow> forEach_client wss st')"

definition heartbeat :: "hub \<Rightarrow> sweep" where
  "heartbeat st = forEach_client (clients st) st"

definition state_after :: "sweep \<Rightarrow> hub" where
  "state_after r = (case r of Completed st \<Rightarrow> st | Uncaught st \<Rightarrow> st)"

text \<open>
  The events the module reacts to after \<^verbatim>\<open>initWebSocket\<close>: a message on a socket (\<open>None\<close>
  when \<^verbatim>\<open>JSON.parse\<close> throws, which the handler catches), a pong frame, the close and error
  events of a socket, a tick of the heartbeat interval, and a call of \<^verbatim>\<open>broadcastToGroup\<close>
  by the API layer. The socket events are those of sessions, which have the handlers. At
  its close event the library has removed the socket from \<^verbatim>\<open>wss.clients\<close> and the socket
  is \<^verbatim>\<open>CLOSED\<close>. After a tick the state is the one the sweep left, completed or not.
\<close>

datatype event =
    Message nat "ws_message option"
  | PongFrame nat
  | CloseEvent nat
  | ErrorEvent nat
  | HeartbeatTick
  | Broadcast int ws_message "int option"

fun step :: "hub \<Rightarrow> event \<Rightarrow> hub" where
  "step st (Message ws None) = st"
| "step st (Message ws (Some message)) = handleMessage ws message st"
| "step st (PongFrame ws) = update_socket ws (\<lambda>s. s\<lparr>isAlive := True\<rparr>) st"
| "step st (CloseEvent ws) =
     handleDisconnect ws
       (update_socket ws (\<lambda>s. s\<lparr>readyState := CLOSED\<rparr>)
          (st\<lparr>clients := set_delete ws (clients st)\<rparr>))"
| "step st (ErrorEvent ws) = handleDisconnect ws st"
| "step st HeartbeatTick = state_after (heartbeat st)"
| "step st (Broadcast groupId message excludeUserId) =
     broadcastToGroup groupId message excludeUserId st"

definition run :: "hub \<Rightarrow> event list \<Rightarrow> hub" where
  "run st evs = foldl step st evs"

text \<open>
  The hub before any room is joined: no room, every socket with the empty set of rooms
  that \<^verbatim>\<open>connection\<close> gives it, and given clients and socket attributes.
\<close>

definition new_hub :: "(nat \<Rightarrow> socket) \<Rightarrow> nat list \<Rightarrow> hub" where
  "new_hub ss cs =
     \<lparr>rooms = Map.empty, socks = (\<lambda>ws. (ss ws)\<lparr>groupRooms := []\<rparr>), clients = cs,
      sent = [], closes = []\<rparr>"

text \<open>The sessions of a room, none when the map has no entry for the group.\<close>

definition room :: "hub \<Rightarrow> int \<Rightarrow> nat list" where
  "room st g = (case rooms st g of None \<Rightarrow> [] | Some r \<Rightarrow> r)"

definition session :: "int \<Rightarrow> ready_state \<Rightarrow> socket" where
  "session uid r = \<lparr>userId = uid, groupRooms = [], isAlive = True, readyState = r\<rparr>"

text \<open>For the proofs: a room's entry in the map after a socket has left it.\<close>

definition left :: "nat \<Rightarrow> nat list option \<Rightarrow> nat list option" where
  "left ws r = (case r of None \<Rightarrow> None
     | Some xs \<Rightarrow> if removeAll ws xs = [] then None else Some (removeAll ws xs))"

text \<open>
  The invariant of the hub's state: a socket is in a room exactly when the room is among
  the socket's rooms, the map holds no empty room, and rooms and sockets' room sets are
  sets (no repetition).
\<close>

definition hub_inv :: "hub \<Rightarrow> bool" where
  "hub_inv st \<longleftrightarrow>
     (\<forall>ws g. (ws \<in> set (room st g)) = (g \<in> set (groupRooms (socks st ws)))) \<and>
     (\<forall>g. rooms st g \<noteq> Some []) \<and>
     (\<forall>g. distinct (room st g)) \<and>
     (\<forall>ws. distinct (groupRooms (socks st ws)))"

text \<open>A hub with three sockets, of three users, in the room of group 42; the third is closing.\<close>

definition hub1 :: hub where
  "hub1 = run (new_hub (\<lambda>ws. if ws = 1 then session 10 OPEN else if ws = 2 then session 20 OPEN
              else session 30 CLOSING) [1, 2, 3])
     [Message 1 (Some (JOIN_GROUP 42)), Message 2 (Some (JOIN_GROUP 42)),
      Message 3 (Some (JOIN_GROUP 42))]"

text \<open>A hub whose only socket is alone in the room of group 42.\<close>

definition hub2 :: hub where
  "hub2 = run (new_hub (\<lambda>ws. session 10 OPEN) [1]) [Message 1 (Some (JOIN_GROUP 42))]"

text \<open>
  A socket the heartbeat has evicted: it is in no room, has no room in its set, and its
  connection is no longer open.
\<close>

definition evicted :: "nat \<Rightarrow> hub \<Rightarrow> bool" where
  "evicted s st \<longleftrightarrow>
     (\<forall>g. s \<notin> set (room st g)) \<and> groupRooms (socks st s) = [] \<and>
     readyState (socks st s) \<noteq> OPEN"

text \<open>
  For the proofs: the visit of a session by the sweep, and what the sweep leaves of a socket
  it found not alive.
\<close>

definition visit :: "nat \<Rightarrow> hub \<Rightarrow> hub" where
  "visit ws st =
     (if \<not> isAlive (socks st ws) then ws_terminate ws (handleDisconnect ws st)
      else ws_send ws PING (update_socket ws (\<lambda>s. s\<lparr>isAlive := False\<rparr>) st))"

definition gone :: "nat \<Rightarrow> hub \<Rightarrow> bool" where
  "gone s st \<longleftrightarrow> \<not> isAlive (socks st s) \<and> groupRooms (socks st s) = [] \<and>
     readyState (socks st s) \<noteq> OPEN"

text \<open>A verifier that accepts one token, for user 7.\<close>

definition verify_one :: "string \<Rightarrow> int option" where
  "verify_one t = (if t = ''good'' then Some 7 else None)"


section \<open>Selection API (playlistController.ts, addSelection and removeSelection)\<close>

text \<open>
  The tables the two handlers read and write, as lists of rows: \<open>users\<close> maps a user's id
  to the display name, \<open>group_members\<close> holds pairs of group and user, \<open>group_events\<close> pairs
  of group and event, \<open>act_events\<close> the acts as pairs of act and event, \<open>selections\<close> the
  selection rows, and \<open>selections_seq\<close> the last row id given out. Route parameters are
  taken as the numbers they denote.
\<close>

record db =
  users :: "int \<rightharpoonup> string"
  group_members :: "(int \<times> int) list"
  group_events :: "(int \<times> int) list"
  act_events :: "(int \<times> int) list"
  selections :: "SelectionRow list"
  selections_seq :: int





definition act_in_group :: "db \<Rightarrow> int \<Rightarrow> int \<Rightarrow> bool" where
  "act_in_group d aid groupId \<longleftrightarrow>
     list_ex (\<lambda>(a, ev). a = aid \<and> (groupId, ev) \<in> set (group_events d)) (act_events d)"









section \<open>Conflict detector: proofs\<close>

lemma upt_Suc_shift: "[Suc i..<Suc n] = map Suc [i..<n]"
  by (simp add: map_Suc_upt)

lemma row_pairs_Cons: "row_pairs (x # xs) = map (Pair x) xs @ row_pairs xs"
proof -
  let ?n = "length xs"
  have a: "[0..<Suc ?n] = 0 # map Suc [0..<?n]"
    by (simp only: upt_Suc_shift[symmetric] upt_conv_Cons[of 0 "Suc ?n"] zero_less_Suc)
  have c: "map (\<lambda>j. (x, (x # xs) ! j)) [Suc 0..<Suc ?n] = map (Pair x) xs"
  proof -
    have "map (\<lambda>j. (x, (x # xs) ! j)) [Suc 0..<Suc ?n] = map (\<lambda>j. (x, xs ! j)) [0..<?n]"
      by (simp only: upt_Suc_shift map_map comp_def nth_Cons_Suc)
    also have "\<dots> = map (Pair x) (map (\<lambda>j. xs ! j) [0..<?n])"
      by (simp only: map_map comp_def)
    finally show ?thesis by (simp only: map_nth)
  qed
  have d: "\<And>i. map (\<lambda>j. ((x # xs) ! Suc i, (x # xs) ! j)) [Suc (Suc i)..<Suc ?n]
      = map (\<lambda>j. (xs ! i, xs ! j)) [Suc i..<?n]"
    by (simp only: upt_Suc_shift map_map comp_def nth_Cons_Suc)
  have "row_pairs (x # xs) =
      concat (map (\<lambda>i. map (\<lambda>j. ((x # xs) ! i, (x # xs) ! j)) [Suc i..<Suc ?n]) [0..<Suc ?n])"
    by (simp add: row_pairs_def del: upt_Suc)
  also have "\<dots> = map (\<lambda>j. (x, (x # xs) ! j)) [Suc 0..<Suc ?n] @
      concat (map (\<lambda>i. map (\<lambda>j. ((x # xs) ! Suc i, (x # xs) ! j)) [Suc (Suc i)..<Suc ?n]) [0..<?n])"
    by (simp only: a list.map concat.simps map_map comp_def nth_Cons_0)
  also have "\<dots> = map (Pair x) xs @ row_pairs xs"
    by (simp only: c d) (simp add: row_pairs_def)
  finally show ?thesis .
qed

lemma row_pairs_pairs: "row_pairs xs = pairs xs"
  by (induction xs) (simp_all add: row_pairs_Cons, simp add: row_pairs_def)

lemma pairs_filter:
  "pairs (filter P xs) = filter (\<lambda>p. P (fst p) \<and> P (snd p)) (pairs xs)"
  by (induction xs) (auto simp: filter_map comp_def intro!: filter_False[symmetric] map_cong filter_cong)

lemma pairs_set: "p \<in> set (pairs xs) \<Longrightarrow> fst p \<in> set xs \<and> snd p \<in> set xs"
  by (induction xs) auto

lemma map_push_keyed:
  "distinct ks \<Longrightarrow>
   map_push k v (map (\<lambda>k'. (k', f k')) ks) =
     (if k \<in> set ks then map (\<lambda>k'. (k', if k' = k then f k' @ [v] else f k')) ks
      else map (\<lambda>k'. (k', f k')) ks @ [(k, [v])])"
  by (induction ks) auto

lemma group_rows_snoc: "group_rows key (xs @ [x]) = map_push (key x) x (group_rows key xs)"
  by (simp add: group_rows_def)

lemma group_rows_keyed:
  "\<exists>ks. distinct ks \<and> set ks = key ` set xs \<and>
     group_rows key xs = map (\<lambda>k. (k, filter (\<lambda>x. key x = k) xs)) ks"
proof (induction xs rule: rev_induct)
  case Nil
  show ?case by (simp add: group_rows_def)
next
  case (snoc x xs)
  then obtain ks where ks: "distinct ks" "set ks = key ` set xs"
    "group_rows key xs = map (\<lambda>k. (k, filter (\<lambda>x. key x = k) xs)) ks" by blast
  show ?case
  proof (cases "key x \<in> set ks")
    case True
    have "group_rows key (xs @ [x]) = map (\<lambda>k. (k, filter (\<lambda>y. key y = k) (xs @ [x]))) ks"
      using True ks(1) by (simp add: group_rows_snoc ks(3) map_push_keyed)
    with True ks show ?thesis by (intro exI[of _ ks]) auto
  next
    case False
    then have "\<forall>y\<in>set xs. key y \<noteq> key x"
      using ks(2) by (metis imageI)
    then have e: "filter (\<lambda>y. key y = key x) xs = []"
      by (simp add: filter_empty_conv)
    have "group_rows key (xs @ [x]) = map (\<lambda>k. (k, filter (\<lambda>y. key y = k) (xs @ [x]))) (ks @ [key x])"
      using False ks(1) e by (auto simp add: group_rows_snoc ks(3) map_push_keyed)
    with False ks show ?thesis by (intro exI[of _ "ks @ [key x]"]) auto
  qed
qed


lemma sum_list_filter_mset_keys:
  "distinct ks \<Longrightarrow>
   (\<Sum>k\<leftarrow>ks. filter_mset (\<lambda>x. K x = k) M) = filter_mset (\<lambda>x. K x \<in> set ks) M"
proof (induction ks)
  case Nil
  show ?case by simp
next
  case (Cons k ks)
  then have "k \<notin> set ks" "distinct ks" by simp_all
  with Cons.IH show ?case
    by (auto intro!: multiset_eqI)
qed

lemma sum_list_image_mset:
  "(\<Sum>k\<leftarrow>ks. image_mset f (g k)) = image_mset f (\<Sum>k\<leftarrow>ks. g k)"
  by (induction ks) simp_all

lemma grouped_pairs:
  "(\<Sum>(k, vs)\<leftarrow>group_rows key S. mset (map f (filter Q (pairs vs)))) =
   mset (map f (filter (\<lambda>p. Q p \<and> key (fst p) = key (snd p)) (pairs S)))"
proof -
  obtain ks where ks: "distinct ks" "set ks = key ` set S"
    "group_rows key S = map (\<lambda>k. (k, filter (\<lambda>x. key x = k) S)) ks"
    using group_rows_keyed[of key S] by (elim exE conjE)
  let ?M = "filter_mset (\<lambda>p. Q p \<and> key (fst p) = key (snd p)) (mset (pairs S))"
  have each: "mset (map f (filter Q (pairs (filter (\<lambda>x. key x = k) S)))) =
      image_mset f (filter_mset (\<lambda>p. key (fst p) = k) ?M)" for k
  proof -
    have "filter_mset Q (filter_mset (\<lambda>p. key (fst p) = k \<and> key (snd p) = k) (mset (pairs S)))
        = filter_mset (\<lambda>p. key (fst p) = k) ?M"
      unfolding filter_filter_mset by (rule filter_mset_cong) auto
    then show ?thesis
      by (simp only: pairs_filter mset_map mset_filter)
  qed
  have "(\<Sum>(k, vs)\<leftarrow>group_rows key S. mset (map f (filter Q (pairs vs)))) =
      (\<Sum>k\<leftarrow>ks. image_mset f (filter_mset (\<lambda>p. key (fst p) = k) ?M))"
    by (simp only: ks(3) map_map comp_def prod.case each)
  also have "\<dots> = image_mset f (\<Sum>k\<leftarrow>ks. filter_mset (\<lambda>p. key (fst p) = k) ?M)"
    by (rule sum_list_image_mset)
  also have "\<dots> = image_mset f (filter_mset (\<lambda>p. key (fst p) \<in> set ks) ?M)"
    by (simp only: sum_list_filter_mset_keys[OF ks(1)])
  also have "filter_mset (\<lambda>p. key (fst p) \<in> set ks) ?M = ?M"
  proof -
    have "\<forall>p\<in>#?M. key (fst p) \<in> set ks"
      using ks(2) pairs_set by fastforce
    then show ?thesis by (simp only: filter_mset_eq_conv) auto
  qed
  finally show ?thesis by (simp only: mset_map mset_filter)
qed


lemma guarded_inner:
  "concat (map (\<lambda>j. if Q (h j) then [g (h j)] else []) js) = map g (filter Q (map h js))"
  by (induction js) simp_all

lemma guarded_nested:
  "concat (map (\<lambda>i. concat (map (\<lambda>j. if Q (h i j) then [g (h i j)] else []) (J i))) ns) =
   map g (filter Q (concat (map (\<lambda>i. map (h i) (J i)) ns)))"
  by (induction ns) (simp_all add: guarded_inner)

lemma day_conflicts_pairs:
  "day_conflicts uid d vs =
   map (\<lambda>p. push_conflict uid d (fst p) (snd p))
     (filter (\<lambda>p. time_overlap (fst p) (snd p)) (pairs vs))"
proof -
  have "day_conflicts uid d vs =
    map (\<lambda>p. push_conflict uid d (fst p) (snd p))
     (filter (\<lambda>p. time_overlap (fst p) (snd p)) (row_pairs vs))"
    unfolding day_conflicts_def row_pairs_def
    using guarded_nested[of "\<lambda>p. time_overlap (fst p) (snd p)" "\<lambda>i j. (vs ! i, vs ! j)"
        "\<lambda>p. push_conflict uid d (fst p) (snd p)" "\<lambda>i. [i + 1..<length vs]" "[0..<length vs]"]
    by (simp cong: if_cong)
  then show ?thesis by (simp only: row_pairs_pairs)
qed

lemma group_rows_members:
  "(k, vs) \<in> set (group_rows key S) \<Longrightarrow> x \<in> set vs \<Longrightarrow> key x = k \<and> x \<in> set S"
  using group_rows_keyed[of key S] by (elim exE conjE) auto

lemma sum_list_cong:
  "(\<And>x. x \<in> set xs \<Longrightarrow> f x = g x) \<Longrightarrow> sum_list (map f xs) = sum_list (map g xs)"
  by (induction xs) simp_all

lemma getConflicts_mset:
  "mset (getConflicts S) = mset (map conflict_of (filter is_conflict (pairs S)))"
proof -
  let ?ov = "\<lambda>p. time_overlap (fst p) (snd p)"
  let ?f1 = "\<lambda>u p. push_conflict u (day_id (fst p)) (fst p) (snd p)"
  have inner: "(\<Sum>(d, vs)\<leftarrow>byDay sels. mset (day_conflicts u d vs)) =
      mset (map (?f1 u) (filter (\<lambda>p. ?ov p \<and> day_id (fst p) = day_id (snd p)) (pairs sels)))"
    for u sels
  proof -
    have "(\<Sum>(d, vs)\<leftarrow>byDay sels. mset (day_conflicts u d vs)) =
        (\<Sum>(d, vs)\<leftarrow>group_rows day_id sels. mset (map (?f1 u) (filter ?ov (pairs vs))))"
      unfolding byDay_def
    proof (rule sum_list_cong, clarify)
      fix d vs assume m: "(d, vs) \<in> set (group_rows day_id sels)"
      have "map (\<lambda>p. push_conflict u d (fst p) (snd p)) (filter ?ov (pairs vs)) =
          map (?f1 u) (filter ?ov (pairs vs))"
        using group_rows_members[OF m] pairs_set[of _ vs] by (intro map_cong) auto
      then show "mset (day_conflicts u d vs) = mset (map (?f1 u) (filter ?ov (pairs vs)))"
        by (simp only: day_conflicts_pairs)
    qed
    then show ?thesis by (simp only: grouped_pairs)
  qed
  let ?Q = "\<lambda>p. ?ov p \<and> day_id (fst p) = day_id (snd p)"
  have "mset (getConflicts S) =
      (\<Sum>(u, sels)\<leftarrow>group_rows user_id S. (\<Sum>(d, vs)\<leftarrow>byDay sels. mset (day_conflicts u d vs)))"
    unfolding getConflicts_def userSelections_def
    by (simp add: mset_concat comp_def case_prod_unfold)
  also have "\<dots> = (\<Sum>(u, sels)\<leftarrow>group_rows user_id S. mset (map (?f1 u) (filter ?Q (pairs sels))))"
    by (simp only: inner)
  also have "\<dots> = (\<Sum>(u, sels)\<leftarrow>group_rows user_id S. mset (map conflict_of (filter ?Q (pairs sels))))"
  proof (rule sum_list_cong, clarify)
    fix u sels assume m: "(u, sels) \<in> set (group_rows user_id S)"
    have "map (?f1 u) (filter ?Q (pairs sels)) = map conflict_of (filter ?Q (pairs sels))"
      using group_rows_members[OF m] pairs_set[of _ sels]
      by (intro map_cong) (auto simp: conflict_of_def push_conflict_def act_of_def)
    then show "mset (map (?f1 u) (filter ?Q (pairs sels))) = mset (map conflict_of (filter ?Q (pairs sels)))"
      by (rule arg_cong)
  qed
  also have "\<dots> = mset (map conflict_of
      (filter (\<lambda>p. ?Q p \<and> user_id (fst p) = user_id (snd p)) (pairs S)))"
    by (rule grouped_pairs)
  also have "(\<lambda>p. ?Q p \<and> user_id (fst p) = user_id (snd p)) = is_conflict"
    by (auto simp: is_conflict_def time_overlap_def fun_eq_iff)
  finally show ?thesis .
qed

lemma row_pairs_iff:
  "p \<in> set (row_pairs S) \<longleftrightarrow> (\<exists>i j. i < j \<and> j < length S \<and> p = (S ! i, S ! j))"
proof
  assume "p \<in> set (row_pairs S)"
  then obtain i j where "i < length S" "Suc i \<le> j" "j < length S" "p = (S ! i, S ! j)"
    unfolding row_pairs_def by auto
  then show "\<exists>i j. i < j \<and> j < length S \<and> p = (S ! i, S ! j)"
    by (intro exI[of _ i] exI[of _ j]) simp
next
  assume "\<exists>i j. i < j \<and> j < length S \<and> p = (S ! i, S ! j)"
  then obtain i j where ij: "i < j" "j < length S" "p = (S ! i, S ! j)" by blast
  then have "i \<in> set [0..<length S]" "j \<in> set [i + 1..<length S]" by simp_all
  then have "(S ! i, S ! j) \<in> (\<Union>i\<in>set [0..<length S]. (\<lambda>j. (S ! i, S ! j)) ` set [i + 1..<length S])"
    by blast
  then show "p \<in> set (row_pairs S)"
    unfolding row_pairs_def ij(3) by simp
qed

lemma getConflicts_set:
  "set (getConflicts S) = conflict_of ` {p \<in> set (row_pairs S). is_conflict p}"
proof -
  have "set (getConflicts S) = set_mset (mset (getConflicts S))" by simp
  also have "\<dots> = set_mset (mset (map conflict_of (filter is_conflict (pairs S))))"
    by (simp only: getConflicts_mset)
  finally show ?thesis by (simp add: row_pairs_pairs)
qed

text \<open>
  C1: the conflicts reported are, counted with multiplicity, the Conflict records of the
  pairs of positions \<open>i < j\<close> of the input whose rows have the same user and day and satisfy
  \<open>a.start_time < b.end_time\<close> and \<open>b.start_time < a.end_time\<close> in the order of strings: one
  record for each such pair and none for any other pair, and the record of a pair names the
  user and day of its rows and lists the act of the earlier row first, each act with its
  own id, name, stage and times. A pair whose first row ends when the second starts is not
  a conflict.
\<close>

theorem getConflicts_overlapping_pairs:
  "mset (getConflicts S) = mset (map conflict_of (filter is_conflict (row_pairs S))) \<and>
   (\<forall>a b. end_time a = start_time b \<longrightarrow> \<not> is_conflict (a, b) \<and> \<not> time_overlap a b)"
  by (simp add: getConflicts_mset row_pairs_pairs is_conflict_def time_overlap_def)

theorem getConflicts_overlapping_pairs_witness:
  "end_time (sel 1 1 10 ''10:00'' ''11:00'') = start_time (sel 1 1 11 ''11:00'' ''12:00'') \<and>
   \<not> time_overlap (sel 1 1 10 ''10:00'' ''11:00'') (sel 1 1 11 ''11:00'' ''12:00'') \<and>
   mset (getConflicts [sel 1 1 10 ''23:00'' ''25:30'', sel 1 1 11 ''24:30'' ''26:00'']) =
     {#\<lparr>conflict.userId = 1, userName = [], dayId = 1,
        acts = (\<lparr>actId = 10, actName = [], stageId = 1, stageName = [],
                   startTime = ''23:00'', endTime = ''25:30''\<rparr>,
                \<lparr>actId = 11, actName = [], stageId = 1, stageName = [],
                   startTime = ''24:30'', endTime = ''26:00''\<rparr>)\<rparr>#}"
proof -
  have e: "end_time (sel 1 1 10 ''10:00'' ''11:00'') = start_time (sel 1 1 11 ''11:00'' ''12:00'')"
    by (simp add: sel_def)
  have p: "row_pairs [a, b] = [(a, b)]" for a b :: ConflictRow
    by (simp add: row_pairs_def)
  have c: "is_conflict (sel 1 1 10 ''23:00'' ''25:30'', sel 1 1 11 ''24:30'' ''26:00'')"
    by (simp add: is_conflict_def sel_def)
  have r: "conflict_of (sel 1 1 10 ''23:00'' ''25:30'', sel 1 1 11 ''24:30'' ''26:00'') =
     \<lparr>conflict.userId = 1, userName = [], dayId = 1,
        acts = (\<lparr>actId = 10, actName = [], stageId = 1, stageName = [],
                   startTime = ''23:00'', endTime = ''25:30''\<rparr>,
                \<lparr>actId = 11, actName = [], stageId = 1, stageName = [],
                   startTime = ''24:30'', endTime = ''26:00''\<rparr>)\<rparr>"
    by (simp add: conflict_of_def sel_def)
  from getConflicts_overlapping_pairs
    [of "[sel 1 1 10 ''23:00'' ''25:30'', sel 1 1 11 ''24:30'' ''26:00'']"]
  show ?thesis using e c by (simp add: p r)
qed

lemma getConflicts_extended_hours:
  "getConflicts [sel 1 1 10 ''23:00'' ''25:30'', sel 1 1 11 ''24:30'' ''26:00''] =
     [conflict_of (sel 1 1 10 ''23:00'' ''25:30'', sel 1 1 11 ''24:30'' ''26:00'')]"
  by (simp add: getConflicts_def userSelections_def byDay_def group_rows_def day_conflicts_def
      time_overlap_def conflict_of_def push_conflict_def act_of_def sel_def)

lemma getConflicts_touching:
  "getConflicts [sel 1 1 10 ''10:00'' ''11:00'', sel 1 1 11 ''11:00'' ''12:00''] = []"
  by (simp add: getConflicts_def userSelections_def byDay_def group_rows_def day_conflicts_def
      time_overlap_def sel_def)

text \<open>
  C2: every conflict reported comes from two rows of the input, at positions \<open>i < j\<close>, of
  one user and one day, which are the user and the day the record names; and an input in
  which any two rows differ in the user or in the day yields no conflict, whatever the times.
\<close>

theorem getConflicts_same_user_same_day:
  "(\<forall>c \<in> set (getConflicts S). \<exists>i j. i < j \<and> j < length S \<and>
       user_id (S ! i) = user_id (S ! j) \<and> day_id (S ! i) = day_id (S ! j) \<and>
       conflict.userId c = user_id (S ! i) \<and> dayId c = day_id (S ! i) \<and>
       acts c = (act_of (S ! i), act_of (S ! j))) \<and>
   ((\<forall>i j. i < j \<and> j < length S \<longrightarrow>
       user_id (S ! i) \<noteq> user_id (S ! j) \<or> day_id (S ! i) \<noteq> day_id (S ! j)) \<longrightarrow>
     getConflicts S = [])"
proof (intro conjI ballI impI)
  fix c assume "c \<in> set (getConflicts S)"
  then obtain p where p: "p \<in> set (row_pairs S)" "is_conflict p" "c = conflict_of p"
    unfolding getConflicts_set by auto
  from p(1) obtain i j where ij: "i < j" "j < length S" "p = (S ! i, S ! j)"
    unfolding row_pairs_iff by auto
  with p(2,3) show "\<exists>i j. i < j \<and> j < length S \<and>
       user_id (S ! i) = user_id (S ! j) \<and> day_id (S ! i) = day_id (S ! j) \<and>
       conflict.userId c = user_id (S ! i) \<and> dayId c = day_id (S ! i) \<and>
       acts c = (act_of (S ! i), act_of (S ! j))"
    by (intro exI[of _ i] exI[of _ j]) (simp add: is_conflict_def conflict_of_def act_of_def)
next
  assume d: "\<forall>i j. i < j \<and> j < length S \<longrightarrow>
       user_id (S ! i) \<noteq> user_id (S ! j) \<or> day_id (S ! i) \<noteq> day_id (S ! j)"
  have "{p \<in> set (row_pairs S). is_conflict p} = {}"
    using d unfolding row_pairs_iff is_conflict_def by fastforce
  then have "set (getConflicts S) = {}"
    by (simp only: getConflicts_set image_empty)
  then show "getConflicts S = []" by simp
qed

theorem getConflicts_same_user_same_day_witness:
  "getConflicts [sel 1 1 10 ''10:00'' ''11:30'', sel 2 1 11 ''11:00'' ''12:00'',
      sel 1 2 12 ''11:00'' ''12:00''] = [] \<and>
   (\<exists>i j. i < j \<and> j < (2::nat) \<and> conflict.userId (conflict_of
       (sel 1 1 10 ''10:00'' ''11:30'', sel 1 1 13 ''11:00'' ''12:00'')) =
       user_id ([sel 1 1 10 ''10:00'' ''11:30'', sel 1 1 13 ''11:00'' ''12:00''] ! i))"
proof -
  let ?S = "[sel 1 1 10 ''10:00'' ''11:30'', sel 2 1 11 ''11:00'' ''12:00'',
      sel 1 2 12 ''11:00'' ''12:00'']"
  let ?T = "[sel 1 1 10 ''10:00'' ''11:30'', sel 1 1 13 ''11:00'' ''12:00'']"
  have h: "\<forall>i j. i < j \<and> j < length ?S \<longrightarrow>
       user_id (?S ! i) \<noteq> user_id (?S ! j) \<or> day_id (?S ! i) \<noteq> day_id (?S ! j)"
    by (auto simp: sel_def less_Suc_eq nth_Cons')
  have m: "conflict_of (sel 1 1 10 ''10:00'' ''11:30'', sel 1 1 13 ''11:00'' ''12:00'')
      \<in> set (getConflicts ?T)"
    by (simp add: getConflicts_def userSelections_def byDay_def group_rows_def day_conflicts_def
      time_overlap_def conflict_of_def push_conflict_def act_of_def sel_def)
  from getConflicts_same_user_same_day[of ?S] h have a: "getConflicts ?S = []" by blast
  from getConflicts_same_user_same_day[of ?T] m
  have "\<exists>i j. i < j \<and> j < length ?T \<and> conflict.userId (conflict_of
       (sel 1 1 10 ''10:00'' ''11:30'', sel 1 1 13 ''11:00'' ''12:00'')) = user_id (?T ! i)"
    by blast
  with a show ?thesis by (simp add: numeral_2_eq_2)
qed

section \<open>Room broadcast hub: proofs\<close>

subsection \<open>What each operation does to each part of the state\<close>

lemma update_socket_fields [simp]:
  "rooms (update_socket ws f st) = rooms st"
  "socks (update_socket ws f st) = (socks st)(ws := f (socks st ws))"
  "clients (update_socket ws f st) = clients st"
  "sent (update_socket ws f st) = sent st"
  "closes (update_socket ws f st) = closes st"
  by (simp_all add: update_socket_def)

lemma ws_send_fields [simp]:
  "rooms (ws_send ws m st) = rooms st"
  "socks (ws_send ws m st) = socks st"
  "clients (ws_send ws m st) = clients st"
  "sent (ws_send ws m st) = sent st @ [(ws, m)]"
  "closes (ws_send ws m st) = closes st"
  by (simp_all add: ws_send_def)

lemma ws_terminate_fields [simp]:
  "rooms (ws_terminate ws st) = rooms st"
  "socks (ws_terminate ws st) = (socks st)(ws := (socks st ws)
      \<lparr>readyState := (if readyState (socks st ws) = CLOSED then CLOSED else CLOSING)\<rparr>)"
  "clients (ws_terminate ws st) = clients st"
  "sent (ws_terminate ws st) = sent st"
  "closes (ws_terminate ws st) = closes st"
  by (simp_all add: ws_terminate_def)

lemma ws_close_fields [simp]:
  "rooms (ws_close ws c r st) = rooms st"
  "socks (ws_close ws c r st) = (socks st)(ws := (socks st ws)
      \<lparr>readyState := (if readyState (socks st ws) = OPEN then CLOSING else readyState (socks st ws))\<rparr>)"
  "clients (ws_close ws c r st) = clients st"
  "sent (ws_close ws c r st) = sent st"
  "closes (ws_close ws c r st) = closes st @ [(ws, c, r)]"
  by (simp_all add: ws_close_def)

lemma joinGroupRoom_fields:
  "rooms (joinGroupRoom ws g st) = (rooms st)(g \<mapsto> set_add ws (room st g))"
  "socks (joinGroupRoom ws g st) =
     (socks st)(ws := (socks st ws)\<lparr>groupRooms := set_add g (groupRooms (socks st ws))\<rparr>)"
  "clients (joinGroupRoom ws g st) = clients st"
  "sent (joinGroupRoom ws g st) = sent st"
  "closes (joinGroupRoom ws g st) = closes st"
  by (auto simp: joinGroupRoom_def room_def Let_def)

lemma leaveGroupRoom_fields:
  "rooms (leaveGroupRoom ws g st) = (rooms st)(g := left ws (rooms st g))"
  "socks (leaveGroupRoom ws g st) =
     (socks st)(ws := (socks st ws)\<lparr>groupRooms := removeAll g (groupRooms (socks st ws))\<rparr>)"
  "clients (leaveGroupRoom ws g st) = clients st"
  "sent (leaveGroupRoom ws g st) = sent st"
  "closes (leaveGroupRoom ws g st) = closes st"
  by (auto simp: leaveGroupRoom_def left_def set_delete_def Let_def split: option.splits)

lemma left_left [simp]: "left ws (left ws r) = left ws r"
  by (simp add: left_def split: option.splits)

lemma leave_all_fields:
  "rooms (foldl (\<lambda>st g. leaveGroupRoom ws g st) st gs) =
     (\<lambda>g. if g \<in> set gs then left ws (rooms st g) else rooms st g)"
  "socks (foldl (\<lambda>st g. leaveGroupRoom ws g st) st gs) =
     (socks st)(ws := (socks st ws)
        \<lparr>groupRooms := filter (\<lambda>g. g \<notin> set gs) (groupRooms (socks st ws))\<rparr>)"
  "clients (foldl (\<lambda>st g. leaveGroupRoom ws g st) st gs) = clients st"
  "sent (foldl (\<lambda>st g. leaveGroupRoom ws g st) st gs) = sent st"
  "closes (foldl (\<lambda>st g. leaveGroupRoom ws g st) st gs) = closes st"
proof (induction gs arbitrary: st)
  case Nil
  {
    case 1 show ?case by simp
  next
    case 2 show ?case by simp
  next
    case 3 show ?case by simp
  next
    case 4 show ?case by simp
  next
    case 5 show ?case by simp
  }
next
  case (Cons g gs)
  {
    case 1 show ?case
      by (simp only: foldl_Cons Cons.IH(1)) (auto simp: leaveGroupRoom_fields fun_eq_iff)
  next
    case 2 show ?case
      by (simp only: foldl_Cons Cons.IH(2))
         (auto simp: leaveGroupRoom_fields fun_eq_iff removeAll_filter_not_eq filter_filter conj_commute
               intro!: arg_cong[of _ _ "\<lambda>x. _\<lparr>groupRooms := x\<rparr>"] filter_cong)
  next
    case 3 show ?case by (simp only: foldl_Cons Cons.IH(3) leaveGroupRoom_fields)
  next
    case 4 show ?case by (simp only: foldl_Cons Cons.IH(4) leaveGroupRoom_fields)
  next
    case 5 show ?case by (simp only: foldl_Cons Cons.IH(5) leaveGroupRoom_fields)
  }
qed

lemma handleDisconnect_fields:
  "rooms (handleDisconnect ws st) =
     (\<lambda>g. if g \<in> set (groupRooms (socks st ws)) then left ws (rooms st g) else rooms st g)"
  "socks (handleDisconnect ws st) = (socks st)(ws := (socks st ws)\<lparr>groupRooms := []\<rparr>)"
  "clients (handleDisconnect ws st) = clients st"
  "sent (handleDisconnect ws st) = sent st"
  "closes (handleDisconnect ws st) = closes st"
  by (simp_all add: handleDisconnect_def leave_all_fields)

lemma set_add_simps [simp]:
  "set (set_add x xs) = insert x (set xs)"
  "set_add x xs \<noteq> []"
  "distinct (set_add x xs) = distinct xs"
  by (auto simp: set_add_def)

lemma room_left:
  "(case left ws r of None \<Rightarrow> [] | Some xs \<Rightarrow> xs) = removeAll ws (case r of None \<Rightarrow> [] | Some xs \<Rightarrow> xs)"
  by (simp add: left_def split: option.splits)

lemma room_joinGroupRoom:
  "room (joinGroupRoom ws g st) g' = (if g' = g then set_add ws (room st g) else room st g')"
  by (simp add: room_def joinGroupRoom_fields)

lemma room_leaveGroupRoom:
  "room (leaveGroupRoom ws g st) g' = (if g' = g then removeAll ws (room st g) else room st g')"
  by (simp add: room_def leaveGroupRoom_fields room_left)

lemma room_handleDisconnect:
  "room (handleDisconnect ws st) g =
     (if g \<in> set (groupRooms (socks st ws)) then removeAll ws (room st g) else room st g)"
  by (simp add: room_def handleDisconnect_fields room_left)

lemma broadcast_loop:
  "foldl (\<lambda>st socket.
            if Some (userId (socks st socket)) \<noteq> ex \<and> readyState (socks st socket) = OPEN
            then ws_send socket m st else st) st xs =
   st\<lparr>sent := sent st @ map (\<lambda>ws. (ws, m))
      (filter (\<lambda>ws. Some (userId (socks st ws)) \<noteq> ex \<and> readyState (socks st ws) = OPEN) xs)\<rparr>"
proof (induction xs arbitrary: st)
  case Nil
  show ?case by simp
next
  case (Cons x xs)
  show ?case
    by (simp only: foldl_Cons Cons.IH) (simp add: ws_send_def)
qed

lemma broadcastToGroup_eq:
  "broadcastToGroup g m ex st =
   st\<lparr>sent := sent st @ map (\<lambda>ws. (ws, m))
      (filter (\<lambda>ws. Some (userId (socks st ws)) \<noteq> ex \<and> readyState (socks st ws) = OPEN)
         (room st g))\<rparr>"
  by (simp add: broadcastToGroup_def broadcast_loop room_def split: option.splits)

lemma broadcastToGroup_fields [simp]:
  "rooms (broadcastToGroup g m ex st) = rooms st"
  "socks (broadcastToGroup g m ex st) = socks st"
  "clients (broadcastToGroup g m ex st) = clients st"
  "closes (broadcastToGroup g m ex st) = closes st"
  by (simp_all add: broadcastToGroup_eq)

subsection \<open>The invariant\<close>

lemma rooms_nonempty_iff: "(\<forall>g. rooms st g \<noteq> Some []) \<longleftrightarrow> (\<forall>g. rooms st g = None \<or> room st g \<noteq> [])"
  by (auto simp: room_def split: option.splits)

lemma hub_inv_cong:
  "rooms st' = rooms st \<Longrightarrow> (\<And>ws. groupRooms (socks st' ws) = groupRooms (socks st ws)) \<Longrightarrow>
   hub_inv st' = hub_inv st"
  by (simp add: hub_inv_def room_def)

lemma hub_inv_new_hub: "hub_inv (new_hub ss cs)"
  by (simp add: hub_inv_def new_hub_def room_def)

lemma hub_inv_joinGroupRoom: "hub_inv st \<Longrightarrow> hub_inv (joinGroupRoom ws g st)"
  unfolding hub_inv_def
  by (simp add: room_joinGroupRoom) (auto simp: joinGroupRoom_fields)

lemma left_not_empty: "left ws r \<noteq> Some []"
  by (simp add: left_def split: option.splits)

lemma hub_inv_leaveGroupRoom: "hub_inv st \<Longrightarrow> hub_inv (leaveGroupRoom ws g st)"
  unfolding hub_inv_def
  by (simp add: room_leaveGroupRoom) (auto simp: leaveGroupRoom_fields left_not_empty distinct_removeAll)

lemma foldl_preserves:
  "(\<And>s x. P s \<Longrightarrow> P (f s x)) \<Longrightarrow> P s \<Longrightarrow> P (foldl f s xs)"
  by (induction xs arbitrary: s) simp_all

lemma hub_inv_handleDisconnect: "hub_inv st \<Longrightarrow> hub_inv (handleDisconnect ws st)"
  unfolding handleDisconnect_def
  by (rule foldl_preserves) (simp_all add: hub_inv_leaveGroupRoom)

lemma hub_inv_update_socket:
  "(\<And>s. groupRooms (f s) = groupRooms s) \<Longrightarrow> hub_inv (update_socket ws f st) = hub_inv st"
  by (rule hub_inv_cong) simp_all

lemma hub_inv_handleMessage: "hub_inv st \<Longrightarrow> hub_inv (handleMessage ws m st)"
  by (cases m) (simp_all add: handleMessage_def hub_inv_joinGroupRoom hub_inv_leaveGroupRoom
      hub_inv_update_socket)

lemma heartbeat_socket_visit:
  "heartbeat_socket ws st = (if refused st ws then None else Some (visit ws st))"
  by (simp add: heartbeat_socket_def visit_def)

lemma hub_inv_visit: "hub_inv st \<Longrightarrow> hub_inv (visit ws st)"
proof -
  assume i: "hub_inv st"
  have a: "hub_inv (ws_terminate ws (handleDisconnect ws st))"
    using hub_inv_handleDisconnect[OF i, of ws]
    by (simp add: ws_terminate_def hub_inv_update_socket)
  have b: "hub_inv (ws_send ws PING (update_socket ws (\<lambda>s. s\<lparr>isAlive := False\<rparr>) st))"
    using i hub_inv_cong[of "ws_send ws PING (update_socket ws (\<lambda>s. s\<lparr>isAlive := False\<rparr>) st)" st]
    by simp
  show ?thesis using a b by (simp add: visit_def)
qed

lemma hub_inv_forEach_client: "hub_inv st \<Longrightarrow> hub_inv (state_after (forEach_client xs st))"
proof (induction xs arbitrary: st)
  case Nil
  then show ?case by (simp add: state_after_def)
next
  case (Cons x xs)
  show ?case
  proof (cases "refused st x")
    case True
    with Cons.prems show ?thesis by (simp add: heartbeat_socket_visit state_after_def)
  next
    case False
    with Cons.IH[OF hub_inv_visit[OF Cons.prems, of x]] show ?thesis
      by (simp add: heartbeat_socket_visit)
  qed
qed

lemma hub_inv_heartbeat: "hub_inv st \<Longrightarrow> hub_inv (state_after (heartbeat st))"
  unfolding heartbeat_def by (rule hub_inv_forEach_client)

lemma hub_inv_step: "hub_inv st \<Longrightarrow> hub_inv (step st e)"
proof (cases e)
  case (Message ws data)
  assume "hub_inv st"
  with Message show ?thesis by (cases data) (simp_all add: hub_inv_handleMessage)
next
  case (PongFrame ws)
  assume "hub_inv st"
  with PongFrame show ?thesis by (simp add: hub_inv_update_socket)
next
  case (CloseEvent ws)
  assume i: "hub_inv st"
  have "hub_inv (update_socket ws (\<lambda>s. s\<lparr>readyState := CLOSED\<rparr>)
          (st\<lparr>clients := set_delete ws (clients st)\<rparr>))"
    using i hub_inv_cong[of "update_socket ws (\<lambda>s. s\<lparr>readyState := CLOSED\<rparr>)
          (st\<lparr>clients := set_delete ws (clients st)\<rparr>)" st] by simp
  with CloseEvent show ?thesis by (simp add: hub_inv_handleDisconnect)
next
  case (ErrorEvent ws)
  assume "hub_inv st"
  with ErrorEvent show ?thesis by (simp add: hub_inv_handleDisconnect)
next
  case HeartbeatTick
  assume "hub_inv st"
  with HeartbeatTick show ?thesis by (simp add: hub_inv_heartbeat)
next
  case (Broadcast g m ex)
  assume "hub_inv st"
  with Broadcast show ?thesis
    using hub_inv_cong[of "broadcastToGroup g m ex st" st] by simp
qed

lemma hub_inv_run: "hub_inv st \<Longrightarrow> hub_inv (run st evs)"
  unfolding run_def by (rule foldl_preserves) (simp_all add: hub_inv_step)

lemma hub_inv_reachable: "hub_inv (run (new_hub ss cs) evs)"
  by (rule hub_inv_run) (rule hub_inv_new_hub)

subsection \<open>Broadcast\<close>

lemma hub_eqI:
  fixes a b :: hub
  shows "rooms a = rooms b \<Longrightarrow> socks a = socks b \<Longrightarrow> clients a = clients b \<Longrightarrow>
    sent a = sent b \<Longrightarrow> closes a = closes b \<Longrightarrow> a = b"
  by (cases a, cases b) simp

lemma hub1_fields:
  "rooms hub1 = [42 \<mapsto> [1, 2, 3]]"
  "userId (socks hub1 ws) = (if ws = 1 then 10 else if ws = 2 then 20 else 30)"
  "readyState (socks hub1 ws) = (if ws = 1 \<or> ws = 2 then OPEN else CLOSING)"
  "groupRooms (socks hub1 ws) = (if ws = 1 \<or> ws = 2 \<or> ws = 3 then [42] else [])"
  "sent hub1 = []"
  by (simp_all add: hub1_def run_def new_hub_def handleMessage_def joinGroupRoom_fields
      joinGroupRoom_def update_socket_def session_def room_def set_add_def)

text \<open>
  C3: a call of \<open>broadcastToGroup\<close> calls \<open>send\<close> with the message on exactly the sockets of
  the group's room whose user is not the excluded one and whose ready state is \<open>OPEN\<close>, once
  each and in the room's order, and changes nothing else; sockets that are not open are
  passed over. When no socket of the room belongs to the excluded user, every open socket
  of the room is sent the message; when the map has no room for the group, the state is
  returned as it was.
\<close>

theorem broadcastToGroup_delivery:
  "sent (broadcastToGroup g m ex st) =
     sent st @ map (\<lambda>ws. (ws, m))
       (filter (\<lambda>ws. Some (userId (socks st ws)) \<noteq> ex \<and> readyState (socks st ws) = OPEN)
          (room st g)) \<and>
   rooms (broadcastToGroup g m ex st) = rooms st \<and>
   socks (broadcastToGroup g m ex st) = socks st \<and>
   clients (broadcastToGroup g m ex st) = clients st \<and>
   closes (broadcastToGroup g m ex st) = closes st \<and>
   ((\<forall>ws \<in> set (room st g). Some (userId (socks st ws)) \<noteq> ex) \<longrightarrow>
      sent (broadcastToGroup g m ex st) =
        sent st @ map (\<lambda>ws. (ws, m)) (filter (\<lambda>ws. readyState (socks st ws) = OPEN) (room st g))) \<and>
   (rooms st g = None \<longrightarrow> broadcastToGroup g m ex st = st)"
proof -
  have a: "sent (broadcastToGroup g m ex st) =
     sent st @ map (\<lambda>ws. (ws, m))
       (filter (\<lambda>ws. Some (userId (socks st ws)) \<noteq> ex \<and> readyState (socks st ws) = OPEN)
          (room st g))"
    by (simp add: broadcastToGroup_eq)
  have b: "filter (\<lambda>ws. Some (userId (socks st ws)) \<noteq> ex \<and> readyState (socks st ws) = OPEN)
          (room st g) = filter (\<lambda>ws. readyState (socks st ws) = OPEN) (room st g)"
    if "\<forall>ws \<in> set (room st g). Some (userId (socks st ws)) \<noteq> ex"
    using that by (intro filter_cong) auto
  have c: "broadcastToGroup g m ex st = st" if "rooms st g = None"
    using that by (simp add: broadcastToGroup_def)
  show ?thesis using a b c by simp
qed

theorem broadcastToGroup_delivery_witness:
  "sent (broadcastToGroup 42 (SELECTION_REMOVED 10 5 42) (Some 10) hub1) =
     [(2, SELECTION_REMOVED 10 5 42)] \<and>
   sent (broadcastToGroup 42 (SELECTION_REMOVED 99 5 42) (Some 99) hub1) =
     [(1, SELECTION_REMOVED 99 5 42), (2, SELECTION_REMOVED 99 5 42)] \<and>
   rooms hub1 7 = None \<and> broadcastToGroup 7 PING None hub1 = hub1"
proof -
  have r: "room hub1 42 = [1, 2, 3]" "rooms hub1 7 = None"
    by (simp_all add: room_def hub1_fields)
  have h: "\<forall>ws \<in> set (room hub1 42). Some (userId (socks hub1 ws)) \<noteq> Some 99"
    by (simp add: r hub1_fields)
  from broadcastToGroup_delivery[of 42 "SELECTION_REMOVED 10 5 42" "Some 10" hub1]
  have 1: "sent (broadcastToGroup 42 (SELECTION_REMOVED 10 5 42) (Some 10) hub1) =
     [(2, SELECTION_REMOVED 10 5 42)]"
    by (simp add: r hub1_fields)
  from broadcastToGroup_delivery[of 42 "SELECTION_REMOVED 99 5 42" "Some 99" hub1] h
  have 2: "sent (broadcastToGroup 42 (SELECTION_REMOVED 99 5 42) (Some 99) hub1) =
     [(1, SELECTION_REMOVED 99 5 42), (2, SELECTION_REMOVED 99 5 42)]"
    by (simp add: r hub1_fields)
  from broadcastToGroup_delivery[of 7 PING None hub1] r(2)
  have 3: "broadcastToGroup 7 PING None hub1 = hub1" by blast
  from 1 2 3 r(2) show ?thesis by simp
qed

subsection \<open>Membership, cleanup, idempotence\<close>

lemma count_list_distinct: "distinct xs \<Longrightarrow> x \<in> set xs \<Longrightarrow> count_list xs x = 1"
  by (induction xs) auto

lemma removeAll_only: "set xs \<subseteq> {s} \<Longrightarrow> removeAll s xs = []"
  by (induction xs) auto

lemma leaveGroupRoom_absent:
  assumes "hub_inv st" "s \<notin> set (room st g)"
  shows "leaveGroupRoom s g st = st"
proof (rule hub_eqI)
  have n: "rooms st g \<noteq> Some []" using assms(1) by (simp add: hub_inv_def)
  have "removeAll s (room st g) = room st g" using assms(2) by simp
  then have "left s (rooms st g) = rooms st g"
    using n by (auto simp: left_def room_def split: option.splits)
  then show "rooms (leaveGroupRoom s g st) = rooms st"
    by (simp add: leaveGroupRoom_fields)
  have "g \<notin> set (groupRooms (socks st s))"
    using assms by (simp add: hub_inv_def)
  then show "socks (leaveGroupRoom s g st) = socks st"
    by (simp add: leaveGroupRoom_fields)
qed (simp_all add: leaveGroupRoom_fields)

lemma leaveGroupRoom_idem:
  "leaveGroupRoom s g (leaveGroupRoom s g st) = leaveGroupRoom s g st"
  by (rule hub_eqI) (simp_all add: leaveGroupRoom_fields)

lemma handleDisconnect_no_rooms:
  "groupRooms (socks st s) = [] \<Longrightarrow> handleDisconnect s st = st"
  by (simp add: handleDisconnect_def)

lemma handleDisconnect_idem:
  "handleDisconnect s (handleDisconnect s st) = handleDisconnect s st"
  by (rule handleDisconnect_no_rooms) (simp add: handleDisconnect_fields)

lemma joinGroupRoom_idem:
  "joinGroupRoom s g (joinGroupRoom s g st) = joinGroupRoom s g st"
  by (rule hub_eqI) (simp_all add: joinGroupRoom_fields room_joinGroupRoom set_add_def)

text \<open>
  C4: in every state the hub reaches from the state without rooms, by any sequence of
  events, a socket is in the room of a group exactly when the group is in the socket's set
  of rooms. The events include the specification's three operations: Join is the
  \<open>JOIN_GROUP\<close> message (\<open>joinGroupRoom\<close>), Leave the \<open>LEAVE_GROUP\<close> message
  (\<open>leaveGroupRoom\<close>), Disconnect the error event (\<open>handleDisconnect\<close>).
\<close>

theorem room_membership_invariant:
  "(s \<in> set (room (run (new_hub ss cs) evs) g)) =
   (g \<in> set (groupRooms (socks (run (new_hub ss cs) evs) s)))"
  using hub_inv_reachable[of ss cs evs] by (simp add: hub_inv_def)

theorem room_membership_invariant_witness:
  "1 \<in> set (room hub1 42) \<and> 42 \<in> set (groupRooms (socks hub1 1)) \<and>
   1 \<notin> set (room (step hub1 (ErrorEvent 1)) 42) \<and>
   42 \<notin> set (groupRooms (socks (step hub1 (ErrorEvent 1)) 1))"
proof -
  let ?ss = "\<lambda>ws. if ws = 1 then session 10 OPEN else if ws = 2 then session 20 OPEN
              else session 30 CLOSING"
  let ?evs = "[Message 1 (Some (JOIN_GROUP 42)), Message 2 (Some (JOIN_GROUP 42)),
      Message 3 (Some (JOIN_GROUP 42))]"
  have e: "step hub1 (ErrorEvent 1) = run (new_hub ?ss [1, 2, 3]) (?evs @ [ErrorEvent 1])"
    by (simp add: hub1_def run_def)
  have a: "42 \<in> set (groupRooms (socks hub1 1))"
    by (simp add: hub1_fields)
  have b: "42 \<notin> set (groupRooms (socks (step hub1 (ErrorEvent 1)) 1))"
    by (simp add: handleDisconnect_fields)
  from room_membership_invariant[of 1 ?ss "[1, 2, 3]" ?evs 42] a
  have 1: "1 \<in> set (room hub1 42)" by (simp add: hub1_def)
  from room_membership_invariant[of 1 ?ss "[1, 2, 3]" "?evs @ [ErrorEvent 1]" 42] b
  have 2: "1 \<notin> set (room (step hub1 (ErrorEvent 1)) 42)" unfolding e by simp
  from 1 2 a b show ?thesis by simp
qed

text \<open>
  C6: in every state the hub reaches, the map holds no empty room; and when a socket is
  the only one left in a group's room, the map has no entry for the group after the
  socket leaves the room or disconnects, and a broadcast to the group then returns the
  state as it is.
\<close>

theorem empty_room_cleanup:
  "st = run (new_hub ss cs) evs \<Longrightarrow>
   rooms st g \<noteq> Some [] \<and>
   (set (room st g) = {s} \<longrightarrow>
      rooms (leaveGroupRoom s g st) g = None \<and>
      rooms (handleDisconnect s st) g = None \<and>
      broadcastToGroup g m ex (leaveGroupRoom s g st) = leaveGroupRoom s g st \<and>
      broadcastToGroup g m ex (handleDisconnect s st) = handleDisconnect s st)"
proof -
  assume "st = run (new_hub ss cs) evs"
  then have i: "hub_inv st" by (simp add: hub_inv_reachable)
  then have n: "rooms st g \<noteq> Some []" by (simp add: hub_inv_def)
  {
    assume o: "set (room st g) = {s}"
    then have "removeAll s (room st g) = []"
      by (simp add: removeAll_only)
    then have l: "left s (rooms st g) = None"
      by (auto simp: left_def room_def split: option.splits)
    have "s \<in> set (room st g)" using o by simp
    then have j: "g \<in> set (groupRooms (socks st s))"
      using i unfolding hub_inv_def by blast
    have 1: "rooms (leaveGroupRoom s g st) g = None"
      by (simp add: leaveGroupRoom_fields l)
    have 2: "rooms (handleDisconnect s st) g = None"
      by (simp add: handleDisconnect_fields l j)
    have "broadcastToGroup g m ex (leaveGroupRoom s g st) = leaveGroupRoom s g st \<and>
      broadcastToGroup g m ex (handleDisconnect s st) = handleDisconnect s st"
      using 1 2 by (simp add: broadcastToGroup_def)
    with 1 2 have "rooms (leaveGroupRoom s g st) g = None \<and>
      rooms (handleDisconnect s st) g = None \<and>
      broadcastToGroup g m ex (leaveGroupRoom s g st) = leaveGroupRoom s g st \<and>
      broadcastToGroup g m ex (handleDisconnect s st) = handleDisconnect s st" by simp
  }
  with n show ?thesis by blast
qed

lemma hub2_fields:
  "rooms hub2 = [42 \<mapsto> [1]]"
  "groupRooms (socks hub2 ws) = (if ws = 1 then [42] else [])"
  by (simp_all add: hub2_def run_def new_hub_def handleMessage_def joinGroupRoom_fields
      session_def room_def set_add_def)

theorem empty_room_cleanup_witness:
  "rooms hub2 42 \<noteq> Some [] \<and> set (room hub2 42) = {1} \<and>
   rooms (leaveGroupRoom 1 42 hub2) 42 = None \<and>
   rooms (handleDisconnect 1 hub2) 42 = None \<and>
   broadcastToGroup 42 PING None (leaveGroupRoom 1 42 hub2) = leaveGroupRoom 1 42 hub2"
proof -
  have o: "set (room hub2 42) = {1}" by (simp add: room_def hub2_fields)
  from empty_room_cleanup[OF hub2_def, of 42 1 PING None] o
  show ?thesis by simp
qed

text \<open>
  C7: joining a room a second time gives the state the first join gave; the map has a room
  for the group after a join, the room of the socket alone when there was none; and when
  the room is a set (as every room of a \<open>Set\<close> is), the socket is in it once.
\<close>

theorem joinGroupRoom_idempotent:
  "joinGroupRoom s g (joinGroupRoom s g st) = joinGroupRoom s g st \<and>
   rooms (joinGroupRoom s g st) g \<noteq> None \<and>
   (rooms st g = None \<longrightarrow> rooms (joinGroupRoom s g st) g = Some [s]) \<and>
   (distinct (room st g) \<longrightarrow>
      count_list (room (joinGroupRoom s g (joinGroupRoom s g st)) g) s = 1)"
proof -
  have "count_list (room (joinGroupRoom s g st) g) s = 1" if "distinct (room st g)"
    using that by (intro count_list_distinct) (simp_all add: room_joinGroupRoom)
  then show ?thesis
    by (simp add: joinGroupRoom_idem) (simp add: joinGroupRoom_fields room_def set_add_def)
qed

theorem joinGroupRoom_idempotent_witness:
  "rooms hub2 7 = None \<and> rooms (joinGroupRoom 1 7 hub2) 7 = Some [1] \<and>
   distinct (room hub2 42) \<and>
   count_list (room (joinGroupRoom 1 42 (joinGroupRoom 1 42 hub2)) 42) 1 = 1 \<and>
   room (joinGroupRoom 1 42 (joinGroupRoom 1 42 hub2)) 42 = [1]"
proof -
  have a: "rooms hub2 7 = None" "distinct (room hub2 42)" "room hub2 42 = [1]"
    by (simp_all add: hub2_fields room_def)
  from joinGroupRoom_idempotent[of 1 7 hub2] a(1)
  have 1: "rooms (joinGroupRoom 1 7 hub2) 7 = Some [1]" by blast
  from joinGroupRoom_idempotent[of 1 42 hub2] a(2)
  have 2: "count_list (room (joinGroupRoom 1 42 (joinGroupRoom 1 42 hub2)) 42) 1 = 1"
    and 3: "joinGroupRoom 1 42 (joinGroupRoom 1 42 hub2) = joinGroupRoom 1 42 hub2"
    by blast+
  have "room (joinGroupRoom 1 42 hub2) 42 = [1]"
    by (simp add: room_joinGroupRoom a(3) set_add_def)
  with 1 2 3 a show ?thesis by simp
qed

text \<open>
  C10: in every state the hub reaches, leaving a room the socket is not in (the map may
  have no such room) returns the state as it is. In any state, leaving twice is leaving
  once, disconnecting twice is disconnecting once, and disconnecting a socket that has no
  rooms returns the state as it is. None of the operations has a failing branch.
\<close>

theorem leaveGroupRoom_absent_noop:
  "(st = run (new_hub ss cs) evs \<and> s \<notin> set (room st g) \<longrightarrow> leaveGroupRoom s g st = st) \<and>
   leaveGroupRoom s g (leaveGroupRoom s g st') = leaveGroupRoom s g st' \<and>
   handleDisconnect s (handleDisconnect s st') = handleDisconnect s st' \<and>
   (groupRooms (socks st' s) = [] \<longrightarrow> handleDisconnect s st' = st')"
  using leaveGroupRoom_absent[of st s g] hub_inv_reachable[of ss cs evs]
  by (auto simp: leaveGroupRoom_idem handleDisconnect_idem handleDisconnect_no_rooms)

theorem leaveGroupRoom_absent_noop_witness:
  "rooms hub1 7 = None \<and> leaveGroupRoom 1 7 hub1 = hub1 \<and>
   9 \<notin> set (room hub1 42) \<and> leaveGroupRoom 9 42 hub1 = hub1 \<and>
   groupRooms (socks hub1 9) = [] \<and> handleDisconnect 9 hub1 = hub1"
proof -
  have a: "rooms hub1 7 = None" "1 \<notin> set (room hub1 7)" "9 \<notin> set (room hub1 42)"
    "groupRooms (socks hub1 9) = []"
    by (simp_all add: hub1_fields room_def)
  from leaveGroupRoom_absent_noop[OF, of hub1 _ _ _ 1 7 hub1] a(2)
  have 1: "leaveGroupRoom 1 7 hub1 = hub1" by (simp add: hub1_def)
  from leaveGroupRoom_absent_noop[of hub1 _ _ _ 9 42 hub1] a(3)
  have 2: "leaveGroupRoom 9 42 hub1 = hub1" by (simp add: hub1_def)
  from leaveGroupRoom_absent_noop[of hub1 _ _ _ 9 42 hub1] a(4)
  have 3: "handleDisconnect 9 hub1 = hub1" by blast
  from 1 2 3 a show ?thesis by simp
qed

subsection \<open>Heartbeat\<close>

lemma visit_fields:
  "clients (visit c st) = clients st"
  "closes (visit c st) = closes st"
  "c \<noteq> s \<Longrightarrow> socks (visit c st) s = socks st s"
  "\<not> isAlive (socks (visit s st) s)"
  "\<not> isAlive (socks st s) \<Longrightarrow> \<not> isAlive (socks (visit c st) s)"
  by (simp_all add: visit_def handleDisconnect_fields)

lemma visit_refused [simp]: "refused (visit c st) ws = refused st ws"
  by (simp add: refused_def visit_fields)

lemma visit_evicts: "\<not> isAlive (socks st s) \<Longrightarrow> gone s (visit s st)"
  by (simp add: gone_def visit_def handleDisconnect_fields)

lemma visit_gone: "gone s st \<Longrightarrow> gone s (visit c st)"
  by (cases "c = s") (simp_all add: gone_def visit_def handleDisconnect_fields)

text \<open>When none of the sockets was refused, the sweep visits them all.\<close>

lemma forEach_client_sessions:
  "\<forall>c \<in> set xs. \<not> refused st c \<Longrightarrow>
   forEach_client xs st = Completed (foldl (\<lambda>st ws. visit ws st) st xs)"
  by (induction xs arbitrary: st) (simp_all add: heartbeat_socket_visit)

text \<open>At the first refused socket the sweep throws, with the state the visits before left.\<close>

lemma forEach_client_refused:
  "\<forall>c \<in> set xs. \<not> refused st c \<Longrightarrow> refused st r \<Longrightarrow>
   forEach_client (xs @ r # ys) st = Uncaught (foldl (\<lambda>st ws. visit ws st) st xs)"
  by (induction xs arbitrary: st) (simp_all add: heartbeat_socket_visit)

lemma sweep_not_alive:
  "s \<in> set xs \<or> \<not> isAlive (socks st s) \<Longrightarrow>
   \<not> isAlive (socks (foldl (\<lambda>st ws. visit ws st) st xs) s)"
proof (induction xs arbitrary: st)
  case Nil
  then show ?case by simp
next
  case (Cons x xs)
  have "\<not> isAlive (socks (visit x st) s)" if "x = s \<or> \<not> isAlive (socks st s)"
    using that visit_fields(4,5) by blast
  with Cons.prems Cons.IH[of "visit x st"] show ?case
    by (simp only: foldl_Cons) auto
qed

lemma sweep_evicts:
  "s \<in> set xs \<Longrightarrow> \<not> isAlive (socks st s) \<Longrightarrow>
   gone s (foldl (\<lambda>st ws. visit ws st) st xs)"
proof (induction xs arbitrary: st)
  case Nil
  then show ?case by simp
next
  case (Cons x xs)
  show ?case
  proof (cases "x = s")
    case True
    have "gone s (visit s st)"
      using Cons.prems(2) by (rule visit_evicts)
    then have "gone s (foldl (\<lambda>st ws. visit ws st) (visit s st) xs)"
      by (rule foldl_preserves[rotated]) (rule visit_gone)
    with True show ?thesis by simp
  next
    case False
    with Cons.prems have "s \<in> set xs" "\<not> isAlive (socks (visit x st) s)"
      by (simp_all add: visit_fields)
    then show ?thesis using Cons.IH[of "visit x st"] by simp
  qed
qed

lemma gone_evicted: "hub_inv st \<Longrightarrow> gone s st \<Longrightarrow> evicted s st"
  by (simp add: hub_inv_def gone_def evicted_def)

text \<open>
  What the sweep does when no client was refused, in a state that satisfies the invariant
  (as every state the hub reaches does): it completes, a client that was not alive is left
  in no room, with no room in its set and its connection terminated, and no client is alive
  after it.
\<close>

lemma heartbeat_of_sessions:
  assumes "hub_inv st" "\<forall>c \<in> set (clients st). \<not> refused st c" "s \<in> set (clients st)"
  shows "\<exists>st'. heartbeat st = Completed st' \<and> \<not> isAlive (socks st' s) \<and>
    (\<not> isAlive (socks st s) \<longrightarrow> evicted s st')"
proof -
  let ?st' = "foldl (\<lambda>st ws. visit ws st) st (clients st)"
  have c: "heartbeat st = Completed ?st'"
    unfolding heartbeat_def using assms(2) by (rule forEach_client_sessions)
  from assms(1) have "hub_inv (state_after (heartbeat st))" by (rule hub_inv_heartbeat)
  then have i: "hub_inv ?st'" by (simp add: c state_after_def)
  have a: "\<not> isAlive (socks ?st' s)"
    using assms(3) by (simp add: sweep_not_alive)
  have "evicted s ?st'" if "\<not> isAlive (socks st s)"
    using i sweep_evicts[OF assms(3) that] by (rule gone_evicted)
  with c a show ?thesis by blast
qed



text \<open>
  C8: the connection handler closes the socket at once, with code 4001 and the reason
  "No token provided", when the query has no token (or an empty one), and with code 4001
  and the reason "Invalid token" when the verifier rejects the token; the reason tells the
  two cases apart (the code is the same), and the socket's session fields are left as
  they were. When the verifier accepts the token, nothing is closed, the socket gets the
  verified user id and an empty set of rooms, and is marked alive.
\<close>

theorem connection_authentication:
  "(token = None \<or> token = Some [] \<longrightarrow>
      connection verifyToken ws token st = ws_close ws 4001 ''No token provided'' st) \<and>
   (token = Some t \<and> t \<noteq> [] \<and> verifyToken t = None \<longrightarrow>
      connection verifyToken ws token st = ws_close ws 4001 ''Invalid token'' st) \<and>
   (token = Some t \<and> t \<noteq> [] \<and> verifyToken t = Some uid \<longrightarrow>
      closes (connection verifyToken ws token st) = closes st \<and>
      socks (connection verifyToken ws token st) =
        (socks st)(ws := \<lparr>userId = uid, groupRooms = [], isAlive = True,
                          readyState = readyState (socks st ws)\<rparr>)) \<and>
   closes (ws_close ws code reason st) = closes st @ [(ws, code, reason)] \<and>
   userId (socks (ws_close ws code reason st) ws) = userId (socks st ws) \<and>
   groupRooms (socks (ws_close ws code reason st) ws) = groupRooms (socks st ws) \<and>
   isAlive (socks (ws_close ws code reason st) ws) = isAlive (socks st ws) \<and>
   (readyState (socks st ws) = OPEN \<longrightarrow>
      readyState (socks (ws_close ws code reason st) ws) = CLOSING) \<and>
   ws_close ws 4001 ''No token provided'' st \<noteq> ws_close ws 4001 ''Invalid token'' st"
proof -
  have "closes (ws_close ws 4001 ''No token provided'' st) \<noteq>
      closes (ws_close ws 4001 ''Invalid token'' st)" by simp
  then have "ws_close ws 4001 ''No token provided'' st \<noteq> ws_close ws 4001 ''Invalid token'' st"
    by metis
  then show ?thesis
    by (auto simp: connection_def fun_eq_iff)
qed

theorem connection_authentication_witness:
  "closes (connection verify_one 5 None hub2) = [(5, 4001, ''No token provided'')] \<and>
   closes (connection verify_one 5 (Some ''bad'') hub2) = [(5, 4001, ''Invalid token'')] \<and>
   readyState (socks (connection verify_one 5 (Some ''bad'') hub2) 5) = CLOSING \<and>
   closes (connection verify_one 5 (Some ''good'') hub2) = [] \<and>
   userId (socks (connection verify_one 5 (Some ''good'') hub2) 5) = 7 \<and>
   isAlive (socks (connection verify_one 5 (Some ''good'') hub2) 5)"
proof -
  have c: "closes hub2 = []" "readyState (socks hub2 5) = OPEN"
    by (simp_all add: hub2_def run_def new_hub_def handleMessage_def joinGroupRoom_fields
        session_def)
  have v: "verify_one ''bad'' = None" "verify_one ''good'' = Some 7"
    by (simp_all add: verify_one_def)
  note t = connection_authentication[where verifyToken = verify_one and ws = 5 and st = hub2]
  from t[where token = None and code = 4001 and reason = "''No token provided''"]
  have 1: "closes (connection verify_one 5 None hub2) = [(5, 4001, ''No token provided'')]"
    by (simp add: c)
  from t[where token = "Some ''bad''" and t = "''bad''" and code = 4001
      and reason = "''Invalid token''"] v(1)
  have 2: "closes (connection verify_one 5 (Some ''bad'') hub2) = [(5, 4001, ''Invalid token'')]"
    and 3: "readyState (socks (connection verify_one 5 (Some ''bad'') hub2) 5) = CLOSING"
    by (simp_all add: c)
  from t[where token = "Some ''good''" and t = "''good''" and uid = 7] v(2)
  have 4: "closes (connection verify_one 5 (Some ''good'') hub2) = []"
    and 5: "userId (socks (connection verify_one 5 (Some ''good'') hub2) 5) = 7"
    and 6: "isAlive (socks (connection verify_one 5 (Some ''good'') hub2) 5)"
    by (simp_all add: c)
  from 1 2 3 4 5 6 show ?thesis by simp
qed

text \<open>
  The end-to-end scenario of the specification: two users join the room of group 42, the
  first adds a selection, and the broadcast that excludes the first user's id is sent to
  the second user's socket once and not to the first.
\<close>

lemma end_to_end_scenario:
  "sent (run (new_hub (\<lambda>ws. if ws = 1 then session 10 OPEN else session 20 OPEN) [1, 2])
     [Message 1 (Some (JOIN_GROUP 42)), Message 2 (Some (JOIN_GROUP 42)),
      Broadcast 42 (SELECTION_ADDED 10 5 42 ''A'' 1) (Some 10)]) =
   [(2, SELECTION_ADDED 10 5 42 ''A'' 1)]"
  by (simp add: run_def new_hub_def handleMessage_def joinGroupRoom_fields session_def
      broadcastToGroup_eq room_def set_add_def)

section \<open>Selection API: proofs\<close>












lemma act_in_group_exists:
  "act_in_group d a g \<Longrightarrow> list_ex (\<lambda>(a', ev). a' = a) (act_events d)"
  by (auto simp: act_in_group_def list_ex_iff)







end
